theory Spec2Isabelle
  imports Complex_Main "HOL-Library.Sublist"
begin

section \<open>Python strings\<close>

text \<open>
  A Python \<^verbatim>\<open>str\<close> is a sequence of Unicode code points, and every operation of the
  program (regular expressions, \<^verbatim>\<open>strip\<close>, slicing, \<^verbatim>\<open>len\<close>) counts code points,
  not bytes. A string is therefore a list of code points, each a natural number.
\<close>

type_synonym uchar = nat
type_synonym ustring = "uchar list"

text \<open>The characters the article pattern names.\<close>

definition JE :: uchar where \<comment> \<open>U+C81C, the syllable that opens a marker\<close>
  "JE = 0xC81C"

definition JO :: uchar where \<comment> \<open>U+C870, the syllable that closes a marker\<close>
  "JO = 0xC870"

definition NL :: uchar where \<comment> \<open>line feed\<close>
  "NL = 0x0A"

text \<open>
  \<^verbatim>\<open>\d\<close> in a \<^verbatim>\<open>str\<close> pattern is every Unicode decimal digit (category Nd), not only
  ASCII \<^verbatim>\<open>0-9\<close>. The table lists the runs of Nd code points of Unicode 14 (CPython 3.11).
\<close>

definition digit_ranges :: "(nat \<times> nat) list" where
  "digit_ranges =
    [(0x30, 0x39), (0x660, 0x669), (0x6F0, 0x6F9), (0x7C0, 0x7C9), (0x966, 0x96F),
     (0x9E6, 0x9EF), (0xA66, 0xA6F), (0xAE6, 0xAEF), (0xB66, 0xB6F), (0xBE6, 0xBEF),
     (0xC66, 0xC6F), (0xCE6, 0xCEF), (0xD66, 0xD6F), (0xDE6, 0xDEF), (0xE50, 0xE59),
     (0xED0, 0xED9), (0xF20, 0xF29), (0x1040, 0x1049), (0x1090, 0x1099), (0x17E0, 0x17E9),
     (0x1810, 0x1819), (0x1946, 0x194F), (0x19D0, 0x19D9), (0x1A80, 0x1A89), (0x1A90, 0x1A99),
     (0x1B50, 0x1B59), (0x1BB0, 0x1BB9), (0x1C40, 0x1C49), (0x1C50, 0x1C59), (0xA620, 0xA629),
     (0xA8D0, 0xA8D9), (0xA900, 0xA909), (0xA9D0, 0xA9D9), (0xA9F0, 0xA9F9), (0xAA50, 0xAA59),
     (0xABF0, 0xABF9), (0xFF10, 0xFF19), (0x104A0, 0x104A9), (0x10D30, 0x10D39),
     (0x11066, 0x1106F), (0x110F0, 0x110F9), (0x11136, 0x1113F), (0x111D0, 0x111D9),
     (0x112F0, 0x112F9), (0x11450, 0x11459), (0x114D0, 0x114D9), (0x11650, 0x11659),
     (0x116C0, 0x116C9), (0x11730, 0x11739), (0x118E0, 0x118E9), (0x11950, 0x11959),
     (0x11C50, 0x11C59), (0x11D50, 0x11D59), (0x11DA0, 0x11DA9), (0x16A60, 0x16A69),
     (0x16AC0, 0x16AC9), (0x16B50, 0x16B59), (0x1D7CE, 0x1D7FF), (0x1E140, 0x1E149),
     (0x1E2F0, 0x1E2F9), (0x1E950, 0x1E959), (0x1FBF0, 0x1FBF9)]"

definition is_digit :: "uchar \<Rightarrow> bool" where
  "is_digit c = list_ex (\<lambda>(lo, hi). lo \<le> c \<and> c \<le> hi) digit_ranges"

text \<open>
  \<^verbatim>\<open>\s\<close> in a \<^verbatim>\<open>str\<close> pattern and the characters \<^verbatim>\<open>str.strip()\<close> removes are the same
  set: the code points for which \<^verbatim>\<open>str.isspace\<close> holds.
\<close>

definition space_chars :: "nat list" where
  "space_chars =
    [0x09, 0x0A, 0x0B, 0x0C, 0x0D, 0x1C, 0x1D, 0x1E, 0x1F, 0x20, 0x85, 0xA0, 0x1680,
     0x2000, 0x2001, 0x2002, 0x2003, 0x2004, 0x2005, 0x2006, 0x2007, 0x2008, 0x2009, 0x200A,
     0x2028, 0x2029, 0x202F, 0x205F, 0x3000]"

definition is_space :: "uchar \<Rightarrow> bool" where
  "is_space c = (c \<in> set space_chars)"

definition is_open :: "uchar \<Rightarrow> bool" where \<comment> \<open>the class of the three opening brackets\<close>
  "is_open c = (c = 0x28 \<or> c = 0x5B \<or> c = 0xFF08)"

definition is_close :: "uchar \<Rightarrow> bool" where \<comment> \<open>the class of the three closing brackets\<close>
  "is_close c = (c = 0x29 \<or> c = 0x5D \<or> c = 0xFF09)"

definition strip :: "ustring \<Rightarrow> ustring" where \<comment> \<open>\<^verbatim>\<open>str.strip()\<close>\<close>
  "strip s = rev (dropWhile is_space (rev (dropWhile is_space s)))"

section \<open>The article segmenter (\<^verbatim>\<open>LawDataCollector._extract_articles\<close>)\<close>

text \<open>
  The source finds the articles with one regular expression, applied by \<^verbatim>\<open>re.finditer\<close>
  under \<^verbatim>\<open>re.DOTALL\<close>:
  \<^verbatim>\<open>JE(\d+)JO\s*[OPEN]?([^CLOSE]*)[CLOSE]?\s*(.*?)(?=JE\d+JO|$)\<close>
  where \<^verbatim>\<open>JE\<close> and \<^verbatim>\<open>JO\<close> stand for the two syllables of the marker, \<^verbatim>\<open>OPEN\<close> for the three
  opening brackets and \<^verbatim>\<open>CLOSE\<close> for the three closing ones. The functions below follow
  the pattern element by element, in the order in which a backtracking matcher tries the
  alternatives. Everything after the marker can match the empty string and the lazy last
  group can always run to the end of the text, so the first alternative of every element
  leads to a match and the matcher never returns to an earlier choice: each greedy element
  takes all it can, the lazy group as little as it can.
\<close>

record article =
  number :: ustring
  title :: ustring
  content :: ustring

text \<open>
  \<^verbatim>\<open>JE(\d+)JO\<close> at the head of the text: the digits captured by group 1 and the text
  after the marker. The digits are taken greedily; giving one back leaves a digit where
  the closing syllable is required, so only the longest run can match.
\<close>

definition marker_at :: "ustring \<Rightarrow> (ustring \<times> ustring) option" where
  "marker_at s =
     (case s of
        [] \<Rightarrow> None
      | c # cs \<Rightarrow>
          if c \<noteq> JE then None
          else (case dropWhile is_digit cs of
                  [] \<Rightarrow> None
                | d # rest \<Rightarrow>
                    if takeWhile is_digit cs \<noteq> [] \<and> d = JO
                    then Some (takeWhile is_digit cs, rest) else None))"

text \<open>An optional single character of a class (\<^verbatim>\<open>[...]?\<close>, greedy): taken when present.\<close>

definition opt_char :: "(uchar \<Rightarrow> bool) \<Rightarrow> ustring \<Rightarrow> ustring" where
  "opt_char p s = (case s of [] \<Rightarrow> [] | c # cs \<Rightarrow> if p c then cs else c # cs)"

text \<open>
  \<^verbatim>\<open>(.*?)(?=JE\d+JO|$)\<close>: the lazy group grows one character at a time until the
  lookahead holds. Without \<^verbatim>\<open>re.MULTILINE\<close>, \<^verbatim>\<open>$\<close> holds at the end of the text and
  also just before a line feed that is the last character of the text. The result is
  group 3 and the text left after the match.
\<close>

fun lazy_body :: "ustring \<Rightarrow> ustring \<times> ustring" where
  "lazy_body [] = ([], [])"
| "lazy_body (c # cs) =
     (if marker_at (c # cs) \<noteq> None \<or> (c = NL \<and> cs = []) then ([], c # cs)
      else (case lazy_body cs of (b, r) \<Rightarrow> (c # b, r)))"

text \<open>
  The pattern after the marker: white space, an optional opening bracket, group 2 (every
  character up to the first closing bracket or the end of the text), an optional closing
  bracket, white space, group 3. The result is group 2, group 3 and the text left after
  the match.
\<close>

definition match_tail :: "ustring \<Rightarrow> ustring \<times> ustring \<times> ustring" where
  "match_tail s =
     (let s1 = dropWhile is_space s;
          s2 = opt_char is_open s1;
          g2 = takeWhile (\<lambda>c. \<not> is_close c) s2;
          s3 = dropWhile (\<lambda>c. \<not> is_close c) s2;
          s4 = opt_char is_close s3;
          s5 = dropWhile is_space s4
      in (case lazy_body s5 of (g3, rest) \<Rightarrow> (g2, g3, rest)))"

lemma marker_at_shorter: "marker_at s = Some (num, r) \<Longrightarrow> length r < length s"
proof -
  assume m: "marker_at s = Some (num, r)"
  then obtain c cs where s: "s = c # cs"
    by (cases s) (auto simp: marker_at_def)
  from m s obtain d where "dropWhile is_digit cs = d # r"
    by (auto simp: marker_at_def split: if_splits list.splits)
  then have "length (d # r) \<le> length cs"
    by (metis length_dropWhile_le)
  with s show ?thesis by simp
qed

lemma opt_char_length: "length (opt_char p s) \<le> length s"
  by (cases s) (auto simp: opt_char_def)

lemma lazy_body_length: "lazy_body s = (b, r) \<Longrightarrow> length r \<le> length s"
  by (induction s arbitrary: b r) (auto split: if_splits prod.splits)

lemma match_tail_length: "match_tail s = (g2, g3, rest) \<Longrightarrow> length rest \<le> length s"
proof -
  assume a: "match_tail s = (g2, g3, rest)"
  define s5 where
    "s5 = dropWhile is_space (opt_char is_close
            (dropWhile (\<lambda>c. \<not> is_close c) (opt_char is_open (dropWhile is_space s))))"
  have "length s5 \<le> length s"
    unfolding s5_def
    by (meson length_dropWhile_le opt_char_length order_trans)
  moreover from a have "lazy_body s5 = (g3, rest)"
    by (auto simp: match_tail_def s5_def Let_def split: prod.splits)
  ultimately show ?thesis
    using lazy_body_length by fastforce
qed

text \<open>
  \<^verbatim>\<open>re.finditer\<close> and the loop over its matches: the text is scanned from the left for the
  next position where the pattern matches, which is the next position where a marker
  starts; the article is appended and the scan goes on where the match ended.
\<close>

function extract_articles :: "ustring \<Rightarrow> article list" where
  "extract_articles [] = []"
| "extract_articles (c # cs) =
     (case marker_at (c # cs) of
        None \<Rightarrow> extract_articles cs
      | Some (num, r) \<Rightarrow>
          (case match_tail r of
             (g2, g3, rest) \<Rightarrow>
               \<lparr>number = num, title = strip g2, content = strip g3\<rparr> # extract_articles rest))"
  by pat_completeness auto
termination
proof (relation "measure length")
  show "wf (measure length)" by simp
next
  fix c :: uchar and cs :: ustring
  show "(cs, c # cs) \<in> measure length" by simp
next
  fix c :: uchar and cs x2 x1 x2a x1a y x1b x2b :: ustring
  fix xa :: "ustring \<times> ustring" and ya :: "ustring \<times> ustring"
  assume "marker_at (c # cs) = Some xa" "(x1, x2) = xa"
    and "(x1a, ya) = match_tail x2" "(x1b, x2b) = ya"
  then have "length x2 < length (c # cs)" "length x2b \<le> length x2"
    using marker_at_shorter [of "c # cs" x1 x2] match_tail_length [of x2 x1a x1b x2b]
    by auto
  then show "(x2b, c # cs) \<in> measure length" by simp
qed

text \<open>
  The marker occurrences of a text: the digits of every marker, in the order in which the
  markers start (\<^verbatim>\<open>re.findall\<close> of the marker pattern; two markers never overlap).
\<close>

fun marker_occurrences :: "ustring \<Rightarrow> ustring list" where
  "marker_occurrences [] = []"
| "marker_occurrences (c # cs) =
     (case marker_at (c # cs) of None \<Rightarrow> [] | Some (num, r) \<Rightarrow> [num])
       @ marker_occurrences cs"

section \<open>The corpus builder (\<^verbatim>\<open>SimpleFairTradeRAG.prepare_documents\<close>)\<close>

text \<open>
  The laws are the dictionaries that \<^verbatim>\<open>load_law_data\<close> reads from the JSON file. A key read
  with \<^verbatim>\<open>d[k]\<close> raises \<^verbatim>\<open>KeyError\<close> when it is absent, a key read with \<^verbatim>\<open>d.get(k)\<close> does
  not; an absent key is \<open>None\<close>. Only the keys that \<^verbatim>\<open>prepare_documents\<close> reads are kept.
\<close>

datatype py_error =
    KeyError string
  | ValueError
  | IndexError
  | NotFittedError
  | CollectionNotFound

record article_entry =
  a_number :: "ustring option"
  a_title :: "ustring option"
  a_content :: "ustring option"

record law_entry =
  l_title :: "ustring option"
  l_content :: "ustring option"
  l_articles :: "article_entry list option"

datatype doc_type = full_law | article_type

record document =
  d_text :: ustring
  d_title :: ustring
  d_type :: doc_type

text \<open>The dictionary appended for the whole law, built when \<^verbatim>\<open>law.get('content')\<close> is truthy.\<close>

definition full_law_document :: "law_entry \<Rightarrow> ustring \<Rightarrow> py_error + document" where
  "full_law_document law c =
     (case l_title law of
        None \<Rightarrow> Inl (KeyError ''title'')
      | Some t \<Rightarrow> Inr \<lparr>d_text = t @ [0x20] @ c, d_title = t, d_type = full_law\<rparr>)"

text \<open>
  The dictionary appended for one article. The f-string reads \<^verbatim>\<open>law['title']\<close>,
  \<^verbatim>\<open>article['number']\<close>, \<^verbatim>\<open>article.get('title', '')\<close> and \<^verbatim>\<open>article['content']\<close>, in this
  order.
\<close>

definition article_document :: "law_entry \<Rightarrow> article_entry \<Rightarrow> py_error + document" where
  "article_document law a =
     (case l_title law of
        None \<Rightarrow> Inl (KeyError ''title'')
      | Some t \<Rightarrow>
          (case a_number a of
             None \<Rightarrow> Inl (KeyError ''number'')
           | Some n \<Rightarrow>
               (case a_content a of
                  None \<Rightarrow> Inl (KeyError ''content'')
                | Some b \<Rightarrow>
                    Inr \<lparr>d_text = t @ [0x20, JE] @ n @ [JO, 0x20]
                                   @ (case a_title a of None \<Rightarrow> [] | Some h \<Rightarrow> h) @ [0x20] @ b,
                         d_title = t @ [0x20, JE] @ n @ [JO],
                         d_type = article_type\<rparr>)))"

text \<open>The inner loop: one document appended per article, in the order of the list.\<close>

fun append_articles ::
  "law_entry \<Rightarrow> article_entry list \<Rightarrow> document list \<Rightarrow> py_error + document list" where
  "append_articles law [] documents = Inr documents"
| "append_articles law (a # as) documents =
     (case article_document law a of
        Inl e \<Rightarrow> Inl e
      | Inr d \<Rightarrow> append_articles law as (documents @ [d]))"

text \<open>The outer loop over the laws, with the list \<^verbatim>\<open>documents\<close> it appends to.\<close>

fun collect_documents :: "law_entry list \<Rightarrow> document list \<Rightarrow> py_error + document list" where
  "collect_documents [] documents = Inr documents"
| "collect_documents (law # laws) documents =
     (case (case l_content law of
              None \<Rightarrow> Inr documents
            | Some c \<Rightarrow>
                if c = [] then Inr documents
                else (case full_law_document law c of
                        Inl e \<Rightarrow> Inl e
                      | Inr d \<Rightarrow> Inr (documents @ [d]))) of
        Inl e \<Rightarrow> Inl e
      | Inr documents1 \<Rightarrow>
          (case append_articles law (case l_articles law of None \<Rightarrow> [] | Some as \<Rightarrow> as)
                  documents1 of
             Inl e \<Rightarrow> Inl e
           | Inr documents2 \<Rightarrow> collect_documents laws documents2))"

text \<open>
  The state of a \<^verbatim>\<open>SimpleFairTradeRAG\<close>: the three attributes set by \<^verbatim>\<open>__init__\<close>.
  The matrix \<^verbatim>\<open>doc_vectors\<close> is only used, with the vocabulary and weights of the fit that
  produced it, to compute the similarities of a query, so it is kept as the function from
  a query to \<^verbatim>\<open>cosine_similarity(vectorizer.transform([query]), doc_vectors).flatten()\<close>,
  one score per fitted text; \<open>None\<close> is the attribute before the first fit. Of the
  vectorizer the state keeps whether it is fitted: \<^verbatim>\<open>transform\<close> raises on a vectorizer
  that is not.
\<close>

type_synonym fitted = "ustring \<Rightarrow> real list"

record rag_state =
  vectorizer_fitted :: bool
  documents :: "document list"
  doc_vectors :: "fitted option"

definition init_state :: rag_state where \<comment> \<open>\<^verbatim>\<open>__init__\<close>\<close>
  "init_state = \<lparr>vectorizer_fitted = False, documents = [], doc_vectors = None\<rparr>"

text \<open>
  \<^verbatim>\<open>prepare_documents\<close>. \<open>fit_transform\<close> stands for the library call
  \<^verbatim>\<open>vectorizer.fit_transform\<close>, which raises when the texts hold no term at all. The state
  assigned before an exception stays assigned, so the state is returned beside the
  result: a \<^verbatim>\<open>KeyError\<close> in the loop leaves the state as it was; a failed fit comes after
  the assignment of \<^verbatim>\<open>self.documents\<close>, leaves \<^verbatim>\<open>doc_vectors\<close> as it was and leaves the
  vectorizer not fitted, because \<^verbatim>\<open>fit_transform\<close> discards the weights of the earlier fit
  before it reads the texts.
\<close>

definition prepare_documents ::
  "(ustring list \<Rightarrow> py_error + fitted) \<Rightarrow> rag_state \<Rightarrow> law_entry list
     \<Rightarrow> rag_state \<times> (py_error + nat)" where
  "prepare_documents fit_transform st laws =
     (case collect_documents laws [] of
        Inl e \<Rightarrow> (st, Inl e)
      | Inr docs \<Rightarrow>
          (let st1 = st\<lparr>documents := docs\<rparr>
           in if docs \<noteq> [] then
                (case fit_transform (map d_text docs) of
                   Inl e \<Rightarrow> (st1\<lparr>vectorizer_fitted := False\<rparr>, Inl e)
                 | Inr v \<Rightarrow>
                     (st1\<lparr>vectorizer_fitted := True, doc_vectors := Some v\<rparr>,
                      Inr (length docs)))
              else (st1, Inr (length docs))))"

section \<open>Retrieval (\<^verbatim>\<open>SimpleFairTradeRAG.search_relevant_documents\<close>)\<close>

record search_result =
  r_text :: ustring
  r_title :: ustring
  r_similarity :: real

text \<open>The slice \<^verbatim>\<open>xs[i:]\<close> of Python for an integer \<open>i\<close> of either sign.\<close>

definition slice_from :: "int \<Rightarrow> 'a list \<Rightarrow> 'a list" where
  "slice_from i xs =
     (if i < 0 then drop (nat (int (length xs) + i)) xs else drop (nat i) xs)"

text \<open>
  \<^verbatim>\<open>similarities.argsort()[-n_results:][::-1]\<close>. \<open>argsort\<close> stands for numpy's
  \<^verbatim>\<open>argsort\<close>: the indices of the array in ascending order of the values. Its default
  algorithm does not promise an order among equal values, so it is a parameter here.
\<close>

definition top_indices :: "(real list \<Rightarrow> nat list) \<Rightarrow> real list \<Rightarrow> int \<Rightarrow> nat list" where
  "top_indices argsort similarities n_results =
     rev (slice_from (- n_results) (argsort similarities))"

text \<open>The dictionary appended to \<^verbatim>\<open>results\<close> for the index \<^verbatim>\<open>idx\<close>.\<close>

definition result_at :: "document list \<Rightarrow> real list \<Rightarrow> nat \<Rightarrow> search_result" where
  "result_at docs similarities idx =
     \<lparr>r_text = d_text (docs ! idx), r_title = d_title (docs ! idx),
      r_similarity = similarities ! idx\<rparr>"

text \<open>
  The loop over \<^verbatim>\<open>top_indices\<close>. \<^verbatim>\<open>self.documents[idx]\<close> raises \<^verbatim>\<open>IndexError\<close> when the
  list is shorter than the similarity array; the indices of \<^verbatim>\<open>argsort\<close> are never negative.
\<close>

fun collect_results ::
  "document list \<Rightarrow> real list \<Rightarrow> nat list \<Rightarrow> search_result list
     \<Rightarrow> py_error + search_result list" where
  "collect_results docs similarities [] results = Inr results"
| "collect_results docs similarities (idx # rest) results =
     (if idx < length docs then
        collect_results docs similarities rest (results @ [result_at docs similarities idx])
      else Inl IndexError)"

definition search_relevant_documents ::
  "(real list \<Rightarrow> nat list) \<Rightarrow> rag_state \<Rightarrow> ustring \<Rightarrow> int
     \<Rightarrow> py_error + search_result list" where
  "search_relevant_documents argsort st query n_results =
     (case doc_vectors st of
        None \<Rightarrow> Inr []
      | Some v \<Rightarrow>
          if documents st = [] then Inr []
          else if \<not> vectorizer_fitted st then Inl NotFittedError
          else (let similarities = v query
                in collect_results (documents st) similarities
                     (top_indices argsort similarities n_results) []))"

text \<open>
  What the library promises of \<^verbatim>\<open>argsort\<close>: a permutation of the indices that puts the
  values in ascending order.
\<close>

definition is_argsort :: "(real list \<Rightarrow> nat list) \<Rightarrow> bool" where
  "is_argsort argsort \<longleftrightarrow>
     (\<forall>xs. distinct (argsort xs) \<and> set (argsort xs) = {0..<length xs}
           \<and> sorted (map (\<lambda>i. xs ! i) (argsort xs)))"

text \<open>
  An \<^verbatim>\<open>argsort\<close> is stable when equal values keep the order of their indices. The
  default kind of numpy's \<^verbatim>\<open>argsort\<close>, which the source uses, is not stable: what it does
  with equal values depends on the build. \<open>stable_argsort\<close> is one admissible \<^verbatim>\<open>argsort\<close>
  among others, the one of \<^verbatim>\<open>kind='stable'\<close>; it is not the behaviour of the source, only an
  instance of the parameter.
\<close>

definition is_stable :: "(real list \<Rightarrow> nat list) \<Rightarrow> bool" where
  "is_stable argsort \<longleftrightarrow>
     (\<forall>xs i j. i < j \<and> j < length (argsort xs) \<and> xs ! (argsort xs ! i) = xs ! (argsort xs ! j)
          \<longrightarrow> argsort xs ! i < argsort xs ! j)"

definition stable_argsort :: "real list \<Rightarrow> nat list" where
  "stable_argsort xs = sort_key (\<lambda>i. xs ! i) [0..<length xs]"

section \<open>Case analysis (\<^verbatim>\<open>analyze_case_simple\<close>, \<^verbatim>\<open>analyze_case_ai\<close>)\<close>




















section \<open>The vector-store retrieval (\<^verbatim>\<open>FairTradeRAG.search_relevant_documents\<close>)\<close>

text \<open>
  The database client is the map from the names of the collections that exist to the
  collections. A collection is kept as its query function: from the query text (encoded by
  the embedding model) and \<^verbatim>\<open>n_results\<close> to the hits, each a chunk, its metadata and its
  distance, or to the error that \<^verbatim>\<open>collection.query\<close> raises (as it does for an
  \<^verbatim>\<open>n_results\<close> that is not positive). \<^verbatim>\<open>get_collection\<close> raises when no collection has the
  name. Neither call is guarded in the source, so both errors leave the function.
\<close>

type_synonym 'm collection =
  "ustring \<Rightarrow> int \<Rightarrow> py_error + (ustring \<times> 'm \<times> real) list"

type_synonym 'm chroma_client = "ustring \<Rightarrow> 'm collection option"

record 'm chunk_result =
  c_text :: ustring
  c_metadata :: 'm
  c_distance :: real

definition collection_name :: ustring where \<comment> \<open>\<^verbatim>\<open>self.collection_name\<close>\<close>
  "collection_name = [0x66, 0x61, 0x69, 0x72, 0x5F, 0x74, 0x72, 0x61, 0x64, 0x65, 0x5F, 0x6C, 0x61, 0x77,
     0x73]"

definition get_collection :: "'m chroma_client \<Rightarrow> ustring \<Rightarrow> py_error + 'm collection" where
  "get_collection client name =
     (case client name of None \<Rightarrow> Inl CollectionNotFound | Some coll \<Rightarrow> Inr coll)"

definition rag_search_relevant_documents ::
  "'m chroma_client \<Rightarrow> ustring \<Rightarrow> int \<Rightarrow> py_error + 'm chunk_result list" where
  "rag_search_relevant_documents client query n_results =
     (case get_collection client collection_name of
        Inl e \<Rightarrow> Inl e
      | Inr coll \<Rightarrow>
          (case coll query n_results of
             Inl e \<Rightarrow> Inl e
           | Inr hits \<Rightarrow>
               Inr (map (\<lambda>(t, m, d). \<lparr>c_text = t, c_metadata = m, c_distance = d\<rparr>) hits)))"

section \<open>Vocabulary of the claims\<close>

text \<open>
  What the claims about the corpus builder speak of: the articles and the content of a
  law as \<^verbatim>\<open>prepare_documents\<close> reads them (\<^verbatim>\<open>law.get('articles', [])\<close> and the truth value
  of \<^verbatim>\<open>law.get('content')\<close>), a law all of whose required keys are present, and the
  documents that the claims expect of one law.
\<close>

definition articles_of :: "law_entry \<Rightarrow> article_entry list" where
  "articles_of law = (case l_articles law of None \<Rightarrow> [] | Some as \<Rightarrow> as)"

definition has_content :: "law_entry \<Rightarrow> bool" where
  "has_content law = (case l_content law of None \<Rightarrow> False | Some c \<Rightarrow> c \<noteq> [])"

definition well_formed_law :: "law_entry \<Rightarrow> bool" where
  "well_formed_law law \<longleftrightarrow>
     l_title law \<noteq> None \<and>
     list_all (\<lambda>a. a_number a \<noteq> None \<and> a_content a \<noteq> None) (articles_of law)"

definition full_statute_text :: "law_entry \<Rightarrow> ustring" where
  "full_statute_text law = the (l_title law) @ [0x20] @ the (l_content law)"

definition article_text :: "law_entry \<Rightarrow> article_entry \<Rightarrow> ustring" where
  "article_text law a =
     the (l_title law) @ [0x20, JE] @ the (a_number a) @ [JO, 0x20]
       @ (case a_title a of None \<Rightarrow> [] | Some h \<Rightarrow> h) @ [0x20] @ the (a_content a)"

definition full_statute_documents :: "law_entry \<Rightarrow> document list" where
  "full_statute_documents law =
     (if has_content law
      then [\<lparr>d_text = full_statute_text law, d_title = the (l_title law), d_type = full_law\<rparr>]
      else [])"

definition article_documents :: "law_entry \<Rightarrow> document list" where
  "article_documents law =
     map (\<lambda>a. \<lparr>d_text = article_text law a,
               d_title = the (l_title law) @ [0x20, JE] @ the (a_number a) @ [JO],
               d_type = article_type\<rparr>) (articles_of law)"

definition statute_documents :: "law_entry \<Rightarrow> document list" where
  "statute_documents law = full_statute_documents law @ article_documents law"

text \<open>Two laws and an index of three documents, for the concrete instances below.\<close>

definition law_A :: law_entry where
  "law_A = \<lparr>l_title = Some [0x41], l_content = Some [0x78],
            l_articles = Some [\<lparr>a_number = Some [0x31], a_title = None, a_content = Some [0x62]\<rparr>]\<rparr>"

definition law_B :: law_entry where
  "law_B = \<lparr>l_title = Some [0x42], l_content = None,
            l_articles = Some [\<lparr>a_number = Some [0x32], a_title = Some [0x68], a_content = Some [0x63]\<rparr>]\<rparr>"

definition three_docs :: "document list" where
  "three_docs =
     [\<lparr>d_text = [0x61], d_title = [0x41], d_type = full_law\<rparr>,
      \<lparr>d_text = [0x62], d_title = [0x42], d_type = article_type\<rparr>,
      \<lparr>d_text = [0x63], d_title = [0x43], d_type = article_type\<rparr>]"

definition tied_index :: rag_state where
  "tied_index =
     \<lparr>vectorizer_fitted = True, documents = three_docs,
      doc_vectors = Some (\<lambda>query. [1 / 5, 1 / 2, 1 / 2])\<rparr>"

section \<open>Properties of the segmenter\<close>

lemmas char_class_defs =
  is_digit_def digit_ranges_def is_space_def space_chars_def is_open_def is_close_def
  JE_def JO_def NL_def

lemmas segmenter_defs = marker_at_def opt_char_def match_tail_def strip_def Let_def

subsection \<open>Markers\<close>

lemma JO_not_digit: "\<not> is_digit JO"
  by (simp add: is_digit_def digit_ranges_def JO_def)

lemma marker_at_Some_iff:
  "marker_at s = Some (num, r) \<longleftrightarrow>
     num \<noteq> [] \<and> (\<forall>d \<in> set num. is_digit d) \<and> s = JE # num @ JO # r"
proof
  assume m: "marker_at s = Some (num, r)"
  then obtain cs where s: "s = JE # cs"
    by (cases s) (auto simp: marker_at_def split: if_splits)
  from m s have d: "dropWhile is_digit cs = JO # r" and t: "takeWhile is_digit cs = num" "num \<noteq> []"
    by (auto simp: marker_at_def split: if_splits list.splits)
  have "cs = num @ JO # r"
    using takeWhile_dropWhile_id [of is_digit cs] d t by simp
  moreover have "\<forall>d \<in> set num. is_digit d"
    using t(1) set_takeWhileD by fastforce
  ultimately show "num \<noteq> [] \<and> (\<forall>d \<in> set num. is_digit d) \<and> s = JE # num @ JO # r"
    using s t by simp
next
  assume a: "num \<noteq> [] \<and> (\<forall>d \<in> set num. is_digit d) \<and> s = JE # num @ JO # r"
  then have "takeWhile is_digit (num @ JO # r) = num" "dropWhile is_digit (num @ JO # r) = JO # r"
    using JO_not_digit by (simp_all add: takeWhile_append2 dropWhile_append2)
  with a show "marker_at s = Some (num, r)"
    by (simp add: marker_at_def)
qed

lemma marker_at_append:
  "marker_at p = Some (num, r) \<Longrightarrow> marker_at (p @ q) = Some (num, r @ q)"
  by (simp add: marker_at_Some_iff)

lemma marker_at_append_None:
  "marker_at (p @ q) = None \<Longrightarrow> marker_at p = None"
  using marker_at_append by (cases "marker_at p") fastforce+

lemma no_marker_iff:
  "marker_occurrences s = [] \<longleftrightarrow> (\<forall>i. marker_at (drop i s) = None)"
proof (induction s)
  case Nil
  show ?case by (simp add: marker_at_def)
next
  case (Cons c cs)
  have "(\<forall>i. marker_at (drop i (c # cs)) = None) \<longleftrightarrow>
        marker_at (c # cs) = None \<and> (\<forall>i. marker_at (drop i cs) = None)"
  proof
    assume a: "\<forall>i. marker_at (drop i (c # cs)) = None"
    have "marker_at (drop 0 (c # cs)) = None" using a by blast
    moreover have "marker_at (drop i cs) = None" for i
      using a [rule_format, of "Suc i"] by simp
    ultimately show "marker_at (c # cs) = None \<and> (\<forall>i. marker_at (drop i cs) = None)" by simp
  next
    assume a: "marker_at (c # cs) = None \<and> (\<forall>i. marker_at (drop i cs) = None)"
    show "\<forall>i. marker_at (drop i (c # cs)) = None"
    proof
      fix i show "marker_at (drop i (c # cs)) = None"
        using a by (cases i) auto
    qed
  qed
  with Cons show ?case by (auto split: option.splits)
qed

lemma no_marker_sublist:
  assumes "marker_occurrences (xs @ ys @ zs) = []"
  shows "marker_occurrences ys = []"
proof -
  have "marker_at (drop i ys) = None" for i
  proof (cases "i \<le> length ys")
    case True
    have "drop (length xs + i) (xs @ ys @ zs) = drop i ys @ zs"
      using True by simp
    then have "marker_at (drop i ys @ zs) = None"
      using assms no_marker_iff by metis
    then show ?thesis by (rule marker_at_append_None)
  next
    case False
    then show ?thesis by (simp add: marker_at_def)
  qed
  then show ?thesis by (simp add: no_marker_iff)
qed

lemma strip_sublist: "\<exists>xs zs. s = xs @ strip s @ zs"
proof -
  define t where "t = dropWhile is_space s"
  have 1: "s = takeWhile is_space s @ t" by (simp add: t_def)
  have "rev t = takeWhile is_space (rev t) @ dropWhile is_space (rev t)" by simp
  then have "t = rev (dropWhile is_space (rev t)) @ rev (takeWhile is_space (rev t))"
    by (metis rev_append rev_rev_ident)
  then have "t = strip s @ rev (takeWhile is_space (rev t))"
    by (simp add: strip_def t_def)
  with 1 show ?thesis by metis
qed

lemma no_marker_strip: "marker_occurrences s = [] \<Longrightarrow> marker_occurrences (strip s) = []"
  using strip_sublist [of s] no_marker_sublist by metis

lemma lazy_body_split: "lazy_body s = (b, r) \<Longrightarrow> s = b @ r"
  by (induction s arbitrary: b r) (auto split: if_splits prod.splits)

lemma lazy_body_no_marker: "lazy_body s = (b, r) \<Longrightarrow> marker_occurrences b = []"
proof (induction s arbitrary: b r)
  case Nil
  then show ?case by simp
next
  case (Cons c cs)
  show ?case
  proof (cases "marker_at (c # cs) \<noteq> None \<or> (c = NL \<and> cs = [])")
    case True
    with Cons.prems show ?thesis by simp
  next
    case False
    obtain b' r' where l: "lazy_body cs = (b', r')" by (cases "lazy_body cs")
    with False Cons.prems have b: "b = c # b'" and r: "r = r'" by auto
    have "cs = b' @ r'" using l by (rule lazy_body_split)
    moreover have "marker_at (c # cs) = None" using False by blast
    ultimately have "marker_at ((c # b') @ r') = None" by simp
    then have "marker_at (c # b') = None" by (rule marker_at_append_None)
    moreover have "marker_occurrences b' = []" using l by (rule Cons.IH)
    ultimately show ?thesis using b by simp
  qed
qed

lemma no_marker_no_articles: "marker_occurrences s = [] \<Longrightarrow> extract_articles s = []"
  by (induction s) (auto split: option.splits)

lemma article_fields:
  "a \<in> set (extract_articles s) \<Longrightarrow>
     number a \<noteq> [] \<and> (\<forall>d \<in> set (number a). is_digit d) \<and> marker_occurrences (content a) = []"
proof (induction s rule: extract_articles.induct)
  case 1
  then show ?case by simp
next
  case (2 c cs)
  show ?case
  proof (cases "marker_at (c # cs)")
    case None
    with 2 show ?thesis by simp
  next
    case (Some p)
    obtain num r where p: "p = (num, r)" by (cases p)
    obtain g2 g3 rest where mt: "match_tail r = (g2, g3, rest)" by (cases "match_tail r") auto
    from 2(3) Some p mt consider
      "a = \<lparr>number = num, title = strip g2, content = strip g3\<rparr>" | "a \<in> set (extract_articles rest)"
      by auto
    then show ?thesis
    proof cases
      case 1
      have "num \<noteq> [] \<and> (\<forall>d \<in> set num. is_digit d)"
        using Some p marker_at_Some_iff by blast
      moreover have "\<exists>s5. lazy_body s5 = (g3, rest)"
        using mt by (auto simp: match_tail_def Let_def split: prod.splits)
      then have "marker_occurrences (strip g3) = []"
        using lazy_body_no_marker no_marker_strip by blast
      ultimately show ?thesis using 1 by simp
    next
      case 2
      then show ?thesis
        using "2.IH"(2) [OF Some p [symmetric] mt [symmetric] refl] by simp
    qed
  qed
qed

lemma match_tail_suffix: "match_tail s = (g2, g3, rest) \<Longrightarrow> suffix rest s"
proof -
  assume a: "match_tail s = (g2, g3, rest)"
  define s1 where "s1 = dropWhile is_space s"
  define s2 where "s2 = opt_char is_open s1"
  define s3 where "s3 = dropWhile (\<lambda>c. \<not> is_close c) s2"
  define s4 where "s4 = opt_char is_close s3"
  define s5 where "s5 = dropWhile is_space s4"
  have opt: "suffix (opt_char p t) t" for p t
    by (cases t) (auto simp: opt_char_def suffix_Cons)
  have "suffix s1 s" "suffix s2 s1" "suffix s3 s2" "suffix s4 s3" "suffix s5 s4"
    unfolding s1_def s2_def s3_def s4_def s5_def
    by (simp_all add: suffix_dropWhile opt)
  then have "suffix s5 s"
    by (meson suffix_order.trans)
  moreover from a have "lazy_body s5 = (g3, rest)"
    by (auto simp: match_tail_def s1_def s2_def s3_def s4_def s5_def Let_def split: prod.splits)
  then have "suffix rest s5"
    using lazy_body_split suffixI by blast
  ultimately show ?thesis
    by (meson suffix_order.trans)
qed

lemma marker_occurrences_append:
  "\<exists>xs. marker_occurrences (p @ s) = xs @ marker_occurrences s"
  by (induction p) (auto split: option.splits)

lemma subseq_marker_suffix:
  assumes "suffix t s" "subseq ys (marker_occurrences t)"
  shows "subseq ys (marker_occurrences s)"
proof -
  from assms(1) obtain p where "s = p @ t" by (auto simp: suffix_def)
  then obtain xs where "marker_occurrences s = xs @ marker_occurrences t"
    using marker_occurrences_append by blast
  with assms(2) show ?thesis
    by (simp add: list_emb_append2)
qed

lemma numbers_subseq_markers:
  "subseq (map number (extract_articles s)) (marker_occurrences s)"
proof (induction s rule: extract_articles.induct)
  case 1
  show ?case by simp
next
  case (2 c cs)
  show ?case
  proof (cases "marker_at (c # cs)")
    case None
    with 2 show ?thesis by simp
  next
    case (Some p)
    obtain num r where p: "p = (num, r)" by (cases p)
    obtain g2 g3 rest where mt: "match_tail r = (g2, g3, rest)" by (cases "match_tail r") auto
    have ih: "subseq (map number (extract_articles rest)) (marker_occurrences rest)"
      using "2.IH"(2) [OF Some p [symmetric] mt [symmetric] refl] .
    have "c # cs = JE # num @ JO # r"
      using Some p marker_at_Some_iff by blast
    then have "suffix r cs"
      by (auto simp: suffix_def)
    moreover have "suffix rest r" using mt by (rule match_tail_suffix)
    ultimately have "suffix rest cs" by (meson suffix_order.trans)
    then have "subseq (map number (extract_articles rest)) (marker_occurrences cs)"
      using ih subseq_marker_suffix by blast
    then show ?thesis
      using Some p mt by simp
  qed
qed

lemma length_articles_le: "length (extract_articles s) \<le> length (marker_occurrences s)"
  using numbers_subseq_markers [of s] list_emb_length by fastforce

lemma article_position:
  "extract_articles s = before @ a # after \<Longrightarrow>
     \<exists>p r g2 g3 rest. s = p @ JE # number a @ JO # r
        \<and> match_tail r = (g2, g3, rest) \<and> title a = strip g2 \<and> content a = strip g3
        \<and> after = extract_articles rest
        \<and> (before = [] \<longrightarrow> marker_occurrences s = number a # marker_occurrences (number a @ JO # r))"
proof (induction s arbitrary: before rule: extract_articles.induct)
  case 1
  then show ?case by simp
next
  case (2 c cs)
  show ?case
  proof (cases "marker_at (c # cs)")
    case None
    with "2.prems" have "extract_articles cs = before @ a # after" by simp
    from "2.IH"(1) [OF None this] obtain p r g2 g3 rest where
      ih: "cs = p @ JE # number a @ JO # r" "match_tail r = (g2, g3, rest)"
        "title a = strip g2" "content a = strip g3" "after = extract_articles rest"
        "before = [] \<longrightarrow> marker_occurrences cs = number a # marker_occurrences (number a @ JO # r)"
      by blast
    have "c # cs = (c # p) @ JE # number a @ JO # r" using ih(1) by simp
    moreover have "marker_occurrences (c # cs) = marker_occurrences cs"
      using None by simp
    ultimately show ?thesis using ih by metis
  next
    case (Some q)
    obtain num r where q: "q = (num, r)" by (cases q)
    obtain g2 g3 rest where mt: "match_tail r = (g2, g3, rest)" by (cases "match_tail r") auto
    have ex: "extract_articles (c # cs)
        = \<lparr>number = num, title = strip g2, content = strip g3\<rparr> # extract_articles rest"
      using Some q mt by simp
    have s: "c # cs = JE # num @ JO # r"
      using Some q marker_at_Some_iff by blast
    show ?thesis
    proof (cases before)
      case Nil
      with ex "2.prems" have a: "a = \<lparr>number = num, title = strip g2, content = strip g3\<rparr>"
        and af: "after = extract_articles rest" by simp_all
      have "marker_occurrences (c # cs) = num # marker_occurrences cs"
        using Some q by simp
      moreover have "cs = num @ JO # r" using s by simp
      ultimately have "marker_occurrences (c # cs) = number a # marker_occurrences (number a @ JO # r)"
        using a by simp
      moreover have "c # cs = [] @ JE # number a @ JO # r" using s a by simp
      ultimately show ?thesis using a af mt by (metis article.select_convs(2,3))
    next
      case (Cons b before')
      with ex "2.prems" have "extract_articles rest = before' @ a # after" by simp
      from "2.IH"(2) [OF Some q [symmetric] mt [symmetric] refl this]
      obtain p r' g2' g3' rest' where
        ih: "rest = p @ JE # number a @ JO # r'" "match_tail r' = (g2', g3', rest')"
          "title a = strip g2'" "content a = strip g3'" "after = extract_articles rest'"
        by blast
      have "suffix rest r" using mt by (rule match_tail_suffix)
      then obtain p1 where "r = p1 @ rest" by (auto simp: suffix_def)
      with s ih(1) have "c # cs = (JE # num @ JO # p1 @ p) @ JE # number a @ JO # r'" by simp
      with ih Cons show ?thesis by blast
    qed
  qed
qed

subsection \<open>Articles and markers\<close>

text \<open>
  C1. For every text with \<open>N\<close> marker occurrences the segmenter returns exactly \<open>N\<close>
  articles, in the order of the markers. The code does not: in the text of two markers
  separated by a space, the heading group of the first match finds no closing bracket and
  runs to the end of the text, over the second marker. The text has two marker occurrences
  and the segmenter returns one article, whose heading is the second marker.
\<close>

theorem extract_articles_swallows_marker:
  "marker_occurrences [0xC81C, 0x31, 0xC870, 0x20, 0xC81C, 0x32, 0xC870] = [[0x31], [0x32]] \<and>
   extract_articles [0xC81C, 0x31, 0xC870, 0x20, 0xC81C, 0x32, 0xC870]
     = [\<lparr>number = [0x31], title = [0xC81C, 0x32, 0xC870], content = []\<rparr>]"
  by (simp add: char_class_defs segmenter_defs)

text \<open>
  C3. The example of the specification: a first article with a bracketed heading, then
  a second marker followed by unbracketed text. The code returns two articles, and the
  first is as the claim says (number 1, the bracketed heading, the body up to the second
  marker). In the second the claim expects an empty heading and the text as body; the code
  puts the whole text in the heading and leaves the body empty, because the heading group
  does not need an opening bracket.
\<close>

theorem extract_articles_example:
  "extract_articles
     [0xC81C, 0x31, 0xC870, 0x28, 0xBAA9, 0xC801, 0x29, 0x20, 0xC774, 0x20, 0xBC95, 0xC758, 0x20,
      0xBAA9, 0xC801, 0xC740, 0x20, 0x2E, 0x2E, 0x2E, 0x20, 0xC81C, 0x32, 0xC870, 0x20, 0xC815,
      0xC758, 0x20, 0x2E, 0x2E, 0x2E]
   = [\<lparr>number = [0x31], title = [0xBAA9, 0xC801],
       content = [0xC774, 0x20, 0xBC95, 0xC758, 0x20, 0xBAA9, 0xC801, 0xC740, 0x20, 0x2E, 0x2E,
                  0x2E]\<rparr>,
      \<lparr>number = [0x32], title = [0xC815, 0xC758, 0x20, 0x2E, 0x2E, 0x2E], content = []\<rparr>]"
  by (simp add: char_class_defs segmenter_defs)

text \<open>
  C8, as stated: the markers found in the concatenation of the extracted bodies are markers
  of the original text. This fails. In the text below the body of the first article is the
  single opening syllable and the body of the second starts with a digit and the closing
  syllable; joined, they form a marker with the number 3, which the text does not contain.
\<close>

theorem bodies_concat_spurious_marker:
  "\<not> set (marker_occurrences (concat (map content (extract_articles
          [0xC81C, 0x31, 0xC870, 0x28, 0x29, 0xC81C, 0xC81C, 0x32, 0xC870, 0x28, 0x29, 0x33,
           0xC870, 0x78]))))
      \<subseteq> set (marker_occurrences
          [0xC81C, 0x31, 0xC870, 0x28, 0x29, 0xC81C, 0xC81C, 0x32, 0xC870, 0x28, 0x29, 0x33,
           0xC870, 0x78])"
  by (simp add: char_class_defs segmenter_defs)

text \<open>
  C8, amended: the body of every extracted article, taken alone, contains no marker
  occurrence, so that segmenting a body again yields no article.
\<close>

theorem body_has_no_marker:
  "a \<in> set (extract_articles s) \<Longrightarrow>
     marker_occurrences (content a) = [] \<and> extract_articles (content a) = []"
  using article_fields no_marker_no_articles by blast

theorem body_has_no_marker_witness:
  "\<lparr>number = [0x32], title = [], content = [0x33, 0xC870, 0x78]\<rparr>
     \<in> set (extract_articles
          [0xC81C, 0x31, 0xC870, 0x28, 0x29, 0xC81C, 0xC81C, 0x32, 0xC870, 0x28, 0x29, 0x33,
           0xC870, 0x78])
   \<and> marker_occurrences [0x33, 0xC870, 0x78] = []
   \<and> extract_articles [0x33, 0xC870, 0x78] = []"
proof -
  have h: "\<lparr>number = [0x32], title = [], content = [0x33, 0xC870, 0x78]\<rparr>
     \<in> set (extract_articles
          [0xC81C, 0x31, 0xC870, 0x28, 0x29, 0xC81C, 0xC81C, 0x32, 0xC870, 0x28, 0x29, 0x33,
           0xC870, 0x78])"
    by (simp add: char_class_defs segmenter_defs)
  from body_has_no_marker [OF h] h show ?thesis by simp
qed

text \<open>
  C9, as stated: the number of an article keeps the numbering of the source, suffixes
  included. This fails. For a marker followed by a suffix syllable and a digit the number
  is the digit between the two marker syllables only, and the suffix is in the heading.
\<close>

theorem number_drops_suffix:
  "extract_articles [0xC81C, 0x31, 0xC870, 0xC758, 0x32]
     = [\<lparr>number = [0x31], title = [0xC758, 0x32], content = []\<rparr>]"
  by (simp add: char_class_defs segmenter_defs)

text \<open>
  C9, amended: the number of every extracted article is the digit string of its own
  marker. It is not empty and consists of decimal digits only; the text is a prefix, then
  the opening syllable, the number, the closing syllable and a rest whose match gives the
  heading and the body of the same article, and the articles after it are those of what
  the match leaves; the number of the first article is the first marker occurrence of the
  text; the numbers of all the articles follow the order of the marker occurrences. Nothing
  after the closing syllable is part of the number.
\<close>

theorem number_is_own_marker:
  assumes "extract_articles s = before @ a # after"
  shows "number a \<noteq> [] \<and> (\<forall>d \<in> set (number a). is_digit d)
     \<and> (\<exists>p r g2 g3 rest. s = p @ JE # number a @ JO # r
          \<and> match_tail r = (g2, g3, rest) \<and> title a = strip g2 \<and> content a = strip g3
          \<and> after = extract_articles rest
          \<and> (before = [] \<longrightarrow>
                marker_occurrences s = number a # marker_occurrences (number a @ JO # r)))
     \<and> subseq (map number (extract_articles s)) (marker_occurrences s)"
proof -
  have "a \<in> set (extract_articles s)" using assms by simp
  then have "number a \<noteq> [] \<and> (\<forall>d \<in> set (number a). is_digit d)"
    using article_fields by blast
  with article_position [OF assms] numbers_subseq_markers [of s] show ?thesis by blast
qed

theorem number_is_own_marker_witness:
  "extract_articles [0xC81C, 0x31, 0xC870, 0x28, 0x61, 0x29, 0x62, 0xC81C, 0x32, 0xC870, 0x28, 0x63, 0x29, 0x64]
     = [] @ \<lparr>number = [0x31], title = [0x61], content = [0x62]\<rparr>
          # [\<lparr>number = [0x32], title = [0x63], content = [0x64]\<rparr>]
   \<and> is_digit 0x31
   \<and> (\<exists>p r g2 g3 rest.
         [0xC81C, 0x31, 0xC870, 0x28, 0x61, 0x29, 0x62, 0xC81C, 0x32, 0xC870, 0x28, 0x63, 0x29, 0x64]
           = p @ JE # [0x31] @ JO # r
         \<and> match_tail r = (g2, g3, rest) \<and> [0x61] = strip g2 \<and> [0x62] = strip g3
         \<and> [\<lparr>number = [0x32], title = [0x63], content = [0x64]\<rparr>] = extract_articles rest
         \<and> marker_occurrences
             [0xC81C, 0x31, 0xC870, 0x28, 0x61, 0x29, 0x62, 0xC81C, 0x32, 0xC870, 0x28, 0x63, 0x29, 0x64]
           = [0x31] # marker_occurrences ([0x31] @ JO # r))
   \<and> marker_occurrences
        [0xC81C, 0x31, 0xC870, 0x28, 0x61, 0x29, 0x62, 0xC81C, 0x32, 0xC870, 0x28, 0x63, 0x29, 0x64]
       = [[0x31], [0x32]]"
proof -
  have h: "extract_articles [0xC81C, 0x31, 0xC870, 0x28, 0x61, 0x29, 0x62, 0xC81C, 0x32, 0xC870, 0x28, 0x63, 0x29, 0x64]
     = [] @ \<lparr>number = [0x31], title = [0x61], content = [0x62]\<rparr>
          # [\<lparr>number = [0x32], title = [0x63], content = [0x64]\<rparr>]"
    by (simp add: char_class_defs segmenter_defs)
  have m: "marker_occurrences
        [0xC81C, 0x31, 0xC870, 0x28, 0x61, 0x29, 0x62, 0xC81C, 0x32, 0xC870, 0x28, 0x63, 0x29, 0x64]
       = [[0x31], [0x32]]"
    by (simp add: char_class_defs segmenter_defs)
  from number_is_own_marker [OF h] have
    "is_digit 0x31 \<and> (\<exists>p r g2 g3 rest.
         [0xC81C, 0x31, 0xC870, 0x28, 0x61, 0x29, 0x62, 0xC81C, 0x32, 0xC870, 0x28, 0x63, 0x29, 0x64]
           = p @ JE # [0x31] @ JO # r
         \<and> match_tail r = (g2, g3, rest) \<and> [0x61] = strip g2 \<and> [0x62] = strip g3
         \<and> [\<lparr>number = [0x32], title = [0x63], content = [0x64]\<rparr>] = extract_articles rest
         \<and> marker_occurrences
             [0xC81C, 0x31, 0xC870, 0x28, 0x61, 0x29, 0x62, 0xC81C, 0x32, 0xC870, 0x28, 0x63, 0x29, 0x64]
           = [0x31] # marker_occurrences ([0x31] @ JO # r))"
    by simp
  with h m show ?thesis by blast
qed

section \<open>Properties of the corpus builder\<close>

lemma append_articles_closed:
  assumes "l_title law = Some t" "list_all (\<lambda>a. a_number a \<noteq> None \<and> a_content a \<noteq> None) as"
  shows "append_articles law as acc =
     Inr (acc @ map (\<lambda>a. \<lparr>d_text = article_text law a,
               d_title = the (l_title law) @ [0x20, JE] @ the (a_number a) @ [JO],
               d_type = article_type\<rparr>) as)"
  using assms
proof (induction as arbitrary: acc)
  case Nil
  show ?case by simp
next
  case (Cons a as)
  then obtain n b where "a_number a = Some n" "a_content a = Some b" by auto
  with Cons show ?case
    by (simp add: article_document_def article_text_def)
qed

lemma collect_documents_closed:
  assumes "list_all well_formed_law laws"
  shows "collect_documents laws acc = Inr (acc @ concat (map statute_documents laws))"
  using assms
proof (induction laws arbitrary: acc)
  case Nil
  show ?case by simp
next
  case (Cons law laws)
  then obtain t where t: "l_title law = Some t"
    by (auto simp: well_formed_law_def)
  have as: "list_all (\<lambda>a. a_number a \<noteq> None \<and> a_content a \<noteq> None) (articles_of law)"
    using Cons.prems by (simp add: well_formed_law_def)
  have step: "append_articles law (articles_of law) (acc @ full_statute_documents law)
      = Inr (acc @ statute_documents law)"
    using append_articles_closed [OF t as]
    by (simp add: statute_documents_def article_documents_def)
  have full: "(case l_content law of
              None \<Rightarrow> Inr acc
            | Some c \<Rightarrow>
                if c = [] then Inr acc
                else (case full_law_document law c of
                        Inl e \<Rightarrow> Inl e
                      | Inr d \<Rightarrow> Inr (acc @ [d]))) = Inr (acc @ full_statute_documents law)"
    using t
    by (auto simp: full_statute_documents_def has_content_def full_law_document_def
          full_statute_text_def split: option.splits)
  have "collect_documents (law # laws) acc
      = collect_documents laws (acc @ statute_documents law)"
    using full step by (simp add: articles_of_def)
  also have "\<dots> = Inr ((acc @ statute_documents law) @ concat (map statute_documents laws))"
    using Cons.IH Cons.prems by simp
  finally show ?case by simp
qed

lemma prepare_documents_documents:
  assumes "list_all well_formed_law laws"
  shows "documents (fst (prepare_documents fit st laws)) = concat (map statute_documents laws)"
  using collect_documents_closed [OF assms, of "[]"]
  by (auto simp: prepare_documents_def Let_def split: sum.splits)

lemmas corpus_defs =
  well_formed_law_def articles_of_def has_content_def full_statute_documents_def
  article_documents_def statute_documents_def full_statute_text_def article_text_def
  JE_def JO_def

text \<open>
  C4. For a list of laws whose required keys are present, \<^verbatim>\<open>prepare_documents\<close> stores
  exactly these documents: for each law in turn, when its content is not empty one document
  of type \<^verbatim>\<open>full_law\<close> whose text is the title, a space and the content, then for each of
  its articles one document of type \<^verbatim>\<open>article\<close> whose text is the title, a space, the
  marker with the number, a space, the heading (empty when absent), a space and the body.
  The documents are stored whatever the fit does afterwards.
\<close>

theorem prepare_documents_texts:
  assumes "list_all well_formed_law laws"
  shows "documents (fst (prepare_documents fit_transform st laws)) =
     concat (map (\<lambda>law.
        (if has_content law
         then [\<lparr>d_text = the (l_title law) @ [0x20] @ the (l_content law),
                d_title = the (l_title law), d_type = full_law\<rparr>]
         else [])
        @ map (\<lambda>a. \<lparr>d_text = the (l_title law) @ [0x20, JE] @ the (a_number a) @ [JO, 0x20]
                            @ (case a_title a of None \<Rightarrow> [] | Some h \<Rightarrow> h) @ [0x20]
                            @ the (a_content a),
                    d_title = the (l_title law) @ [0x20, JE] @ the (a_number a) @ [JO],
                    d_type = article_type\<rparr>) (articles_of law)) laws)"
proof -
  have "statute_documents = (\<lambda>law.
        (if has_content law
         then [\<lparr>d_text = the (l_title law) @ [0x20] @ the (l_content law),
                d_title = the (l_title law), d_type = full_law\<rparr>]
         else [])
        @ map (\<lambda>a. \<lparr>d_text = the (l_title law) @ [0x20, JE] @ the (a_number a) @ [JO, 0x20]
                            @ (case a_title a of None \<Rightarrow> [] | Some h \<Rightarrow> h) @ [0x20]
                            @ the (a_content a),
                    d_title = the (l_title law) @ [0x20, JE] @ the (a_number a) @ [JO],
                    d_type = article_type\<rparr>) (articles_of law))"
    by (rule ext)
       (simp add: statute_documents_def full_statute_documents_def article_documents_def
          full_statute_text_def article_text_def)
  with prepare_documents_documents [OF assms] show ?thesis by simp
qed

theorem prepare_documents_texts_witness:
  "list_all well_formed_law [law_A, law_B] \<and>
   documents (fst (prepare_documents (\<lambda>texts. Inl ValueError) init_state [law_A, law_B])) =
     [\<lparr>d_text = [0x41, 0x20, 0x78], d_title = [0x41], d_type = full_law\<rparr>,
      \<lparr>d_text = [0x41, 0x20, 0xC81C, 0x31, 0xC870, 0x20, 0x20, 0x62],
        d_title = [0x41, 0x20, 0xC81C, 0x31, 0xC870], d_type = article_type\<rparr>,
      \<lparr>d_text = [0x42, 0x20, 0xC81C, 0x32, 0xC870, 0x20, 0x68, 0x20, 0x63],
        d_title = [0x42, 0x20, 0xC81C, 0x32, 0xC870], d_type = article_type\<rparr>]"
proof -
  have h: "list_all well_formed_law [law_A, law_B]"
    by (simp add: corpus_defs law_A_def law_B_def)
  from prepare_documents_texts [OF h, of "\<lambda>texts. Inl ValueError" init_state] h
  show ?thesis
    by (simp add: corpus_defs law_A_def law_B_def)
qed

text \<open>
  C5. \<^verbatim>\<open>prepare_documents\<close> keeps the order of its input: the documents of the laws before
  a law come first, in the order they have when built alone, then the full-text document of
  the law (at most one), then the documents of its articles in the order of the list, then
  the documents of the laws after it.
\<close>

theorem prepare_documents_order:
  assumes "list_all well_formed_law (before @ law # after)"
  shows "documents (fst (prepare_documents fit_transform st (before @ law # after))) =
     documents (fst (prepare_documents fit_transform st before))
       @ full_statute_documents law @ article_documents law
       @ documents (fst (prepare_documents fit_transform st after))
     \<and> length (full_statute_documents law) \<le> 1
     \<and> map d_title (article_documents law)
         = map (\<lambda>a. the (l_title law) @ [0x20, JE] @ the (a_number a) @ [JO]) (articles_of law)"
proof -
  from assms have b: "list_all well_formed_law before" and a: "list_all well_formed_law after"
    by simp_all
  show ?thesis
    using prepare_documents_documents [OF assms, of fit_transform st]
      prepare_documents_documents [OF b, of fit_transform st]
      prepare_documents_documents [OF a, of fit_transform st]
    by (simp add: statute_documents_def full_statute_documents_def article_documents_def)
qed

theorem prepare_documents_order_witness:
  "list_all well_formed_law ([law_B] @ law_A # [law_B]) \<and>
   documents (fst (prepare_documents (\<lambda>texts. Inl ValueError) init_state ([law_B] @ law_A # [law_B]))) =
     documents (fst (prepare_documents (\<lambda>texts. Inl ValueError) init_state [law_B]))
       @ [\<lparr>d_text = [0x41, 0x20, 0x78], d_title = [0x41], d_type = full_law\<rparr>]
       @ [\<lparr>d_text = [0x41, 0x20, 0xC81C, 0x31, 0xC870, 0x20, 0x20, 0x62],
            d_title = [0x41, 0x20, 0xC81C, 0x31, 0xC870], d_type = article_type\<rparr>]
       @ documents (fst (prepare_documents (\<lambda>texts. Inl ValueError) init_state [law_B]))"
proof -
  have h: "list_all well_formed_law ([law_B] @ law_A # [law_B])"
    by (simp add: corpus_defs law_A_def law_B_def)
  from prepare_documents_order [OF h, of "\<lambda>texts. Inl ValueError" init_state] h
  show ?thesis
    by (simp add: corpus_defs law_A_def law_B_def)
qed

section \<open>Properties of retrieval\<close>

lemma collect_results_closed:
  "\<forall>idx \<in> set idxs. idx < length docs \<Longrightarrow>
     collect_results docs sims idxs acc = Inr (acc @ map (result_at docs sims) idxs)"
  by (induction idxs arbitrary: acc) simp_all

lemma argsort_length: "is_argsort srt \<Longrightarrow> length (srt xs) = length xs"
proof -
  assume "is_argsort srt"
  then have "distinct (srt xs)" "set (srt xs) = {0..<length xs}"
    by (simp_all add: is_argsort_def)
  then show ?thesis
    using distinct_card [of "srt xs"] by simp
qed

lemma slice_from_suffix: "suffix (slice_from i xs) xs"
  by (simp add: slice_from_def suffix_drop)

lemma slice_from_drop: "\<exists>m. slice_from i xs = drop m xs"
  unfolding slice_from_def by (cases "i < 0") (simp_all, blast+)

lemma top_indices_set:
  assumes "is_argsort srt"
  shows "distinct (top_indices srt sims k) \<and> set (top_indices srt sims k) \<subseteq> {0..<length sims}"
proof -
  have d: "distinct (srt sims)" and s: "set (srt sims) = {0..<length sims}"
    using assms by (simp_all add: is_argsort_def)
  obtain m where m: "slice_from (- k) (srt sims) = drop m (srt sims)"
    using slice_from_drop by blast
  have "distinct (drop m (srt sims))"
    using d by (rule distinct_drop)
  moreover have "set (drop m (srt sims)) \<subseteq> {0..<length sims}"
    using s set_drop_subset [of m "srt sims"] by simp
  ultimately show ?thesis
    by (simp add: top_indices_def m)
qed

lemma top_indices_descending:
  assumes "is_argsort srt"
  shows "sorted_wrt (\<lambda>i j. sims ! j \<le> sims ! i) (top_indices srt sims k)"
proof -
  have "sorted (map (\<lambda>i. sims ! i) (srt sims))"
    using assms by (simp add: is_argsort_def)
  then have "sorted_wrt (\<lambda>i j. sims ! i \<le> sims ! j) (srt sims)"
    by (simp add: sorted_map)
  then have "sorted_wrt (\<lambda>i j. sims ! i \<le> sims ! j) (slice_from (- k) (srt sims))"
    by (simp add: slice_from_def sorted_wrt_drop)
  then show ?thesis
    by (simp add: top_indices_def sorted_wrt_rev)
qed

lemma top_indices_length_pos:
  assumes "is_argsort srt" "1 \<le> k"
  shows "length (top_indices srt sims k) = min (nat k) (length sims)"
  using assms argsort_length [OF assms(1), of sims]
  by (auto simp: top_indices_def slice_from_def)

lemma top_indices_zero:
  assumes "is_argsort srt"
  shows "top_indices srt sims 0 = rev (srt sims)"
  by (simp add: top_indices_def slice_from_def)

lemma top_indices_ties:
  assumes "is_stable srt" "i < j" "j < length (top_indices srt sims k)"
    and "sims ! (top_indices srt sims k ! i) = sims ! (top_indices srt sims k ! j)"
  shows "top_indices srt sims k ! j < top_indices srt sims k ! i"
proof -
  define ys where "ys = srt sims"
  define zs where "zs = slice_from (- k) ys"
  obtain m where zs: "zs = drop m ys"
    unfolding zs_def using slice_from_drop by blast
  have ti: "top_indices srt sims k = rev zs"
    by (simp add: top_indices_def zs_def ys_def)
  from assms(3) ti have j: "j < length zs" by simp
  with assms(2) have i: "i < length zs" by simp
  have len: "length zs = length ys - m" by (simp add: zs)
  have ni: "rev zs ! i = ys ! (m + (length zs - Suc i))"
    using i by (simp add: rev_nth zs)
  have nj: "rev zs ! j = ys ! (m + (length zs - Suc j))"
    using j by (simp add: rev_nth zs)
  have lt: "m + (length zs - Suc j) < m + (length zs - Suc i)"
    using assms(2) j by arith
  have bound: "m + (length zs - Suc i) < length ys"
    using i len by arith
  have st: "\<And>a b. a < b \<Longrightarrow> b < length ys \<Longrightarrow> sims ! (ys ! a) = sims ! (ys ! b)
      \<Longrightarrow> ys ! a < ys ! b"
    using assms(1) unfolding is_stable_def ys_def by blast
  have eq: "sims ! (ys ! (m + (length zs - Suc j))) = sims ! (ys ! (m + (length zs - Suc i)))"
    using assms(4) unfolding ti ni nj by simp
  have "ys ! (m + (length zs - Suc j)) < ys ! (m + (length zs - Suc i))"
    by (rule st [OF lt bound eq])
  then show ?thesis by (simp add: ti ni nj)
qed

lemma sorted_wrt_filter_nth:
  "sorted_wrt R (filter P ys) \<Longrightarrow> i < j \<Longrightarrow> j < length ys \<Longrightarrow> P (ys ! i) \<Longrightarrow> P (ys ! j)
     \<Longrightarrow> R (ys ! i) (ys ! j)"
proof (induction ys arbitrary: i j)
  case Nil
  then show ?case by simp
next
  case (Cons y ys)
  from Cons.prems(2) obtain j' where j': "j = Suc j'" by (cases j) auto
  show ?case
  proof (cases i)
    case 0
    with Cons.prems have "P y" by simp
    moreover have "ys ! j' \<in> set (filter P ys)"
      using Cons.prems j' by simp
    ultimately show ?thesis
      using Cons.prems(1) 0 j' by simp
  next
    case (Suc i')
    have "sorted_wrt R (filter P ys)"
      using Cons.prems(1) by (cases "P y") simp_all
    then show ?thesis
      using Cons.IH [of i' j'] Cons.prems Suc j' by simp
  qed
qed

lemma stable_argsort_is_argsort: "is_argsort stable_argsort"
  by (simp add: is_argsort_def stable_argsort_def)

lemma stable_argsort_is_stable: "is_stable stable_argsort"
  unfolding is_stable_def
proof (intro allI impI)
  fix xs :: "real list" and i j
  assume a: "i < j \<and> j < length (stable_argsort xs) \<and>
     xs ! (stable_argsort xs ! i) = xs ! (stable_argsort xs ! j)"
  define ys where "ys = stable_argsort xs"
  define v where "v = xs ! (ys ! i)"
  have "filter (\<lambda>y. xs ! y = v) ys = filter (\<lambda>y. xs ! y = v) [0..<length xs]"
    unfolding ys_def stable_argsort_def by (rule sort_key_stable)
  moreover have "sorted_wrt (<) (filter (\<lambda>y. xs ! y = v) [0..<length xs])"
    by (simp add: sorted_wrt_filter)
  ultimately have srt: "sorted_wrt (<) (filter (\<lambda>y. xs ! y = v) ys)" by simp
  have ij: "i < j" and jl: "j < length ys" and eq: "xs ! (ys ! i) = xs ! (ys ! j)"
    using a unfolding ys_def by blast+
  have pi: "xs ! (ys ! i) = v" by (simp add: v_def)
  have pj: "xs ! (ys ! j) = v" using eq by (simp add: v_def)
  have "ys ! i < ys ! j"
    by (rule sorted_wrt_filter_nth [where P = "\<lambda>y. xs ! y = v", OF srt ij jl pi pj])
  then show "stable_argsort xs ! i < stable_argsort xs ! j" by (simp add: ys_def)
qed

lemma search_built:
  assumes "is_argsort srt" "vectorizer_fitted st" "doc_vectors st = Some v"
    "length (v q) = length (documents st)"
  shows "search_relevant_documents srt st q k =
     Inr (map (result_at (documents st) (v q)) (top_indices srt (v q) k))"
proof (cases "documents st = []")
  case True
  with assms(4) have "length (v q) = 0" by simp
  then have "top_indices srt (v q) k = []"
    using top_indices_set [OF assms(1), of "v q" k] by simp
  with True assms(3) show ?thesis
    by (simp add: search_relevant_documents_def)
next
  case False
  have "\<forall>idx \<in> set (top_indices srt (v q) k). idx < length (documents st)"
    using top_indices_set [OF assms(1), of "v q" k] assms(4) by auto
  then have "collect_results (documents st) (v q) (top_indices srt (v q) k) []
      = Inr (map (result_at (documents st) (v q)) (top_indices srt (v q) k))"
    using collect_results_closed [of "top_indices srt (v q) k" "documents st" "v q" "[]"] by simp
  then show ?thesis
    using False assms(2,3)
    by (simp add: search_relevant_documents_def Let_def)
qed

lemma search_unbuilt: "search_relevant_documents srt init_state q k = Inr []"
  by (simp add: search_relevant_documents_def init_state_def)

lemma search_no_documents: "documents st = [] \<Longrightarrow> search_relevant_documents srt st q k = Inr []"
  by (simp add: search_relevant_documents_def split: option.splits)

lemma prepare_documents_zero:
  "snd (prepare_documents fit st laws) = Inr 0 \<Longrightarrow> documents (fst (prepare_documents fit st laws)) = []"
  by (auto simp: prepare_documents_def Let_def split: sum.splits if_splits)

lemma prepare_documents_built:
  assumes "prepare_documents fit_transform st laws = (st', Inr n)" "0 < n"
    and "\<And>texts v q. fit_transform texts = Inr v \<Longrightarrow> length (v q) = length texts"
  shows "vectorizer_fitted st' \<and> n = length (documents st')
     \<and> (\<exists>v. doc_vectors st' = Some v \<and> (\<forall>q. length (v q) = length (documents st')))"
  using assms
  by (auto simp: prepare_documents_def Let_def split: sum.splits if_splits)

lemma top_indices_top:
  assumes "is_argsort srt" "i < length sims" "i \<notin> set (top_indices srt sims k)"
    "j \<in> set (top_indices srt sims k)"
  shows "sims ! i \<le> sims ! j"
proof -
  define ys where "ys = srt sims"
  obtain m where m: "slice_from (- k) ys = drop m ys"
    using slice_from_drop by blast
  have ti: "set (top_indices srt sims k) = set (drop m ys)"
    by (simp add: top_indices_def m [unfolded ys_def] ys_def)
  have "set ys = {0..<length sims}"
    using assms(1) by (simp add: is_argsort_def ys_def)
  then have "i \<in> set ys" using assms(2) by simp
  moreover have "set ys = set (take m ys) \<union> set (drop m ys)"
    by (metis append_take_drop_id set_append)
  ultimately have i: "i \<in> set (take m ys)" using assms(3) ti by blast
  have j: "j \<in> set (drop m ys)" using assms(4) ti by simp
  have "sorted (map (\<lambda>i. sims ! i) ys)"
    using assms(1) by (simp add: is_argsort_def ys_def)
  then have "sorted (map (\<lambda>i. sims ! i) (take m ys @ drop m ys))"
    by simp
  then have "\<forall>x \<in> set (map (\<lambda>i. sims ! i) (take m ys)).
      \<forall>y \<in> set (map (\<lambda>i. sims ! i) (drop m ys)). x \<le> y"
    unfolding map_append sorted_append by blast
  with i j show ?thesis by simp
qed

lemma results_descending:
  "sorted_wrt (\<lambda>i j. sims ! j \<le> sims ! i) idxs \<Longrightarrow>
     sorted_wrt (\<lambda>a b. r_similarity b \<le> r_similarity a) (map (result_at docs sims) idxs)"
  by (simp add: sorted_wrt_map result_at_def)

lemmas retrieval_defs =
  search_relevant_documents_def top_indices_def slice_from_def stable_argsort_def
  result_at_def tied_index_def three_docs_def Let_def upt_rec

text \<open>
  C2, as stated: the results are the \<open>min(k, n)\<close> best, in descending order of score, and
  results of equal score are in the order of their documents. The last part fails. The
  source sorts with numpy's default \<^verbatim>\<open>argsort\<close> and then reverses; it has no tie-break of
  its own, and the default \<^verbatim>\<open>argsort\<close> promises no order among equal values. So the claim
  holds of the program only if it holds for every admissible \<^verbatim>\<open>argsort\<close>. It does not: with
  the stable one, the second and third documents of the index below, of equal score, come
  out third before second.
\<close>

theorem search_ties_reversed:
  "is_argsort stable_argsort \<and>
   search_relevant_documents stable_argsort tied_index [0x78] 2 =
     Inr [\<lparr>r_text = [0x63], r_title = [0x43], r_similarity = 1 / 2\<rparr>,
          \<lparr>r_text = [0x62], r_title = [0x42], r_similarity = 1 / 2\<rparr>]
   \<and> \<not> (\<forall>argsort. is_argsort argsort \<longrightarrow>
          search_relevant_documents argsort tied_index [0x78] 2 =
            Inr [\<lparr>r_text = [0x62], r_title = [0x42], r_similarity = 1 / 2\<rparr>,
                 \<lparr>r_text = [0x63], r_title = [0x43], r_similarity = 1 / 2\<rparr>])"
proof -
  have a: "is_argsort stable_argsort" by (rule stable_argsort_is_argsort)
  have s: "search_relevant_documents stable_argsort tied_index [0x78] 2 =
     Inr [\<lparr>r_text = [0x63], r_title = [0x43], r_similarity = 1 / 2\<rparr>,
          \<lparr>r_text = [0x62], r_title = [0x42], r_similarity = 1 / 2\<rparr>]"
    by (simp add: retrieval_defs)
  have "\<not> (\<forall>argsort. is_argsort argsort \<longrightarrow>
          search_relevant_documents argsort tied_index [0x78] 2 =
            Inr [\<lparr>r_text = [0x62], r_title = [0x42], r_similarity = 1 / 2\<rparr>,
                 \<lparr>r_text = [0x63], r_title = [0x43], r_similarity = 1 / 2\<rparr>])"
  proof
    assume "\<forall>argsort. is_argsort argsort \<longrightarrow>
          search_relevant_documents argsort tied_index [0x78] 2 =
            Inr [\<lparr>r_text = [0x62], r_title = [0x42], r_similarity = 1 / 2\<rparr>,
                 \<lparr>r_text = [0x63], r_title = [0x43], r_similarity = 1 / 2\<rparr>]"
    with a have "search_relevant_documents stable_argsort tied_index [0x78] 2 =
            Inr [\<lparr>r_text = [0x62], r_title = [0x42], r_similarity = 1 / 2\<rparr>,
                 \<lparr>r_text = [0x63], r_title = [0x43], r_similarity = 1 / 2\<rparr>]"
      by blast
    with s show False by simp
  qed
  with a s show ?thesis by blast
qed

text \<open>
  C2, amended. For an index that is built (the vectorizer fitted, one score per document)
  and every \<open>k\<close> of at least 1, whatever admissible \<^verbatim>\<open>argsort\<close> the library provides: the
  function returns the results of the indices \<open>top_indices\<close>; there are \<open>min(k, n)\<close> of
  them, of distinct documents; they are in descending order of score; no document left out
  has a higher score than a document returned; and the order among equal scores is the
  reverse of the order \<^verbatim>\<open>argsort\<close> gave them, so that under a stable \<^verbatim>\<open>argsort\<close> the later
  document comes first.
\<close>

theorem search_top_results:
  assumes "is_argsort argsort" "vectorizer_fitted st" "doc_vectors st = Some v"
    and "length (v query) = length (documents st)" and "1 \<le> k"
  shows "search_relevant_documents argsort st query k
           = Inr (map (result_at (documents st) (v query)) (top_indices argsort (v query) k))
     \<and> length (top_indices argsort (v query) k) = min (nat k) (length (documents st))
     \<and> distinct (top_indices argsort (v query) k)
     \<and> set (top_indices argsort (v query) k) \<subseteq> {0..<length (documents st)}
     \<and> sorted_wrt (\<lambda>a b. r_similarity b \<le> r_similarity a)
          (map (result_at (documents st) (v query)) (top_indices argsort (v query) k))
     \<and> (\<forall>i < length (documents st). i \<notin> set (top_indices argsort (v query) k) \<longrightarrow>
          (\<forall>j \<in> set (top_indices argsort (v query) k). v query ! i \<le> v query ! j))
     \<and> (is_stable argsort \<longrightarrow>
          (\<forall>i j. i < j \<and> j < length (top_indices argsort (v query) k)
               \<and> v query ! (top_indices argsort (v query) k ! i)
                   = v query ! (top_indices argsort (v query) k ! j)
             \<longrightarrow> top_indices argsort (v query) k ! j < top_indices argsort (v query) k ! i))"
proof -
  have 1: "search_relevant_documents argsort st query k
           = Inr (map (result_at (documents st) (v query)) (top_indices argsort (v query) k))"
    using assms(1-4) by (rule search_built)
  have 2: "length (top_indices argsort (v query) k) = min (nat k) (length (documents st))"
    using top_indices_length_pos [OF assms(1,5), of "v query"] assms(4) by simp
  have 3: "distinct (top_indices argsort (v query) k)
     \<and> set (top_indices argsort (v query) k) \<subseteq> {0..<length (documents st)}"
    using top_indices_set [OF assms(1), of "v query" k] assms(4) by simp
  have 4: "sorted_wrt (\<lambda>a b. r_similarity b \<le> r_similarity a)
          (map (result_at (documents st) (v query)) (top_indices argsort (v query) k))"
    using top_indices_descending [OF assms(1)] by (rule results_descending)
  have 5: "\<forall>i < length (documents st). i \<notin> set (top_indices argsort (v query) k) \<longrightarrow>
          (\<forall>j \<in> set (top_indices argsort (v query) k). v query ! i \<le> v query ! j)"
    using top_indices_top [OF assms(1)] assms(4) by simp
  have 6: "is_stable argsort \<longrightarrow>
          (\<forall>i j. i < j \<and> j < length (top_indices argsort (v query) k)
               \<and> v query ! (top_indices argsort (v query) k ! i)
                   = v query ! (top_indices argsort (v query) k ! j)
             \<longrightarrow> top_indices argsort (v query) k ! j < top_indices argsort (v query) k ! i)"
    using top_indices_ties by blast
  from 1 2 3 4 5 6 show ?thesis by blast
qed

theorem search_top_results_witness:
  "is_argsort stable_argsort \<and> vectorizer_fitted tied_index
   \<and> doc_vectors tied_index = Some (\<lambda>query. [1 / 5, 1 / 2, 1 / 2])
   \<and> length [1 / 5, 1 / 2, 1 / 2 :: real] = length (documents tied_index) \<and> (1 :: int) \<le> 2
   \<and> search_relevant_documents stable_argsort tied_index [0x78] 2 =
       Inr [\<lparr>r_text = [0x63], r_title = [0x43], r_similarity = 1 / 2\<rparr>,
            \<lparr>r_text = [0x62], r_title = [0x42], r_similarity = 1 / 2\<rparr>]
   \<and> top_indices stable_argsort [1 / 5, 1 / 2, 1 / 2] 2 = [2, 1]
   \<and> length (top_indices stable_argsort [1 / 5, 1 / 2, 1 / 2] 2) = min (nat 2) (length (documents tied_index))
   \<and> is_stable stable_argsort"
proof -
  have h1: "is_argsort stable_argsort" by (rule stable_argsort_is_argsort)
  have h2: "vectorizer_fitted tied_index" by (simp add: tied_index_def)
  have h3: "doc_vectors tied_index = Some (\<lambda>query. [1 / 5, 1 / 2, 1 / 2])"
    by (simp add: tied_index_def)
  have h4: "length ((\<lambda>query. [1 / 5, 1 / 2, 1 / 2 :: real]) [0x78]) = length (documents tied_index)"
    by (simp add: tied_index_def three_docs_def)
  have h5: "(1 :: int) \<le> 2" by simp
  have t: "top_indices stable_argsort [1 / 5, 1 / 2, 1 / 2] 2 = [2, 1]"
    by (simp add: retrieval_defs)
  from search_top_results [OF h1 h2 h3 h4 h5] t h1 h2 h3 h4 stable_argsort_is_stable
  show ?thesis
    by (simp add: result_at_def tied_index_def three_docs_def)
qed

text \<open>
  C10. With \<^verbatim>\<open>n_results = 0\<close> on a built index that is not empty, the slice
  \<^verbatim>\<open>[-0:]\<close> is the whole array: the function returns one result for every document, in
  descending order of score, and not the empty list.
\<close>

theorem search_zero_returns_all:
  assumes "is_argsort argsort" "vectorizer_fitted st" "doc_vectors st = Some v"
    and "length (v query) = length (documents st)" and "documents st \<noteq> []"
  shows "search_relevant_documents argsort st query 0
           = Inr (map (result_at (documents st) (v query)) (rev (argsort (v query))))
     \<and> length (rev (argsort (v query))) = length (documents st)
     \<and> distinct (rev (argsort (v query)))
     \<and> set (rev (argsort (v query))) = {0..<length (documents st)}
     \<and> sorted_wrt (\<lambda>a b. r_similarity b \<le> r_similarity a)
          (map (result_at (documents st) (v query)) (rev (argsort (v query))))
     \<and> search_relevant_documents argsort st query 0 \<noteq> Inr []"
proof -
  have z: "top_indices argsort (v query) 0 = rev (argsort (v query))"
    using assms(1) by (rule top_indices_zero)
  have 1: "search_relevant_documents argsort st query 0
           = Inr (map (result_at (documents st) (v query)) (rev (argsort (v query))))"
    using search_built [OF assms(1-4), of 0] z by simp
  have 2: "length (rev (argsort (v query))) = length (documents st)"
    using argsort_length [OF assms(1), of "v query"] assms(4) by simp
  have 3: "distinct (rev (argsort (v query)))
     \<and> set (rev (argsort (v query))) = {0..<length (documents st)}"
    using assms(1,4) by (simp add: is_argsort_def)
  have 4: "sorted_wrt (\<lambda>a b. r_similarity b \<le> r_similarity a)
          (map (result_at (documents st) (v query)) (rev (argsort (v query))))"
    using top_indices_descending [OF assms(1), of "v query" 0] z results_descending by metis
  have 5: "search_relevant_documents argsort st query 0 \<noteq> Inr []"
    using 1 2 assms(5) by auto
  from 1 2 3 4 5 show ?thesis by blast
qed

theorem search_zero_returns_all_witness:
  "is_argsort stable_argsort \<and> vectorizer_fitted tied_index
   \<and> doc_vectors tied_index = Some (\<lambda>query. [1 / 5, 1 / 2, 1 / 2])
   \<and> length [1 / 5, 1 / 2, 1 / 2 :: real] = length (documents tied_index)
   \<and> documents tied_index \<noteq> []
   \<and> search_relevant_documents stable_argsort tied_index [0x78] 0 =
       Inr [\<lparr>r_text = [0x63], r_title = [0x43], r_similarity = 1 / 2\<rparr>,
            \<lparr>r_text = [0x62], r_title = [0x42], r_similarity = 1 / 2\<rparr>,
            \<lparr>r_text = [0x61], r_title = [0x41], r_similarity = 1 / 5\<rparr>]
   \<and> length (rev (stable_argsort [1 / 5, 1 / 2, 1 / 2])) = length (documents tied_index)"
proof -
  have h1: "is_argsort stable_argsort" by (rule stable_argsort_is_argsort)
  have h2: "vectorizer_fitted tied_index" by (simp add: tied_index_def)
  have h3: "doc_vectors tied_index = Some (\<lambda>query. [1 / 5, 1 / 2, 1 / 2])"
    by (simp add: tied_index_def)
  have h4: "length ((\<lambda>query. [1 / 5, 1 / 2, 1 / 2 :: real]) [0x78]) = length (documents tied_index)"
    by (simp add: tied_index_def three_docs_def)
  have h5: "documents tied_index \<noteq> []" by (simp add: tied_index_def three_docs_def)
  have a: "stable_argsort [1 / 5, 1 / 2, 1 / 2] = [0, 1, 2]"
    by (simp add: stable_argsort_def upt_rec)
  from search_zero_returns_all [OF h1 h2 h3 h4 h5] a h1 h2 h3 h4 h5
  show ?thesis
    by (simp add: result_at_def tied_index_def three_docs_def)
qed

section \<open>Properties of the case analysis\<close>





section \<open>Querying an index that was never built\<close>

text \<open>
  C6. Querying an index that was never built, or was built on no document, returns the
  empty list and raises nothing. \<^verbatim>\<open>SimpleFairTradeRAG\<close> does so, by its guard, in its initial
  state and after \<^verbatim>\<open>prepare_documents\<close> on no law. \<^verbatim>\<open>FairTradeRAG\<close> has no such guard: with
  no collection of its name in the database, \<^verbatim>\<open>get_collection\<close> raises and the error leaves
  \<^verbatim>\<open>search_relevant_documents\<close>, for every query and every \<^verbatim>\<open>n_results\<close>.
\<close>

theorem unbuilt_index_query:
  "rag_search_relevant_documents (\<lambda>name. None) query n_results = Inl CollectionNotFound
   \<and> search_relevant_documents argsort init_state query n_results = Inr []
   \<and> search_relevant_documents argsort (fst (prepare_documents fit_transform st [])) query n_results
       = Inr []"
  by (simp add: rag_search_relevant_documents_def get_collection_def
      search_relevant_documents_def init_state_def prepare_documents_def split: option.splits)

end
